theory Spec2Isabelle
  imports Main "HOL-Library.Product_Lexorder"
begin

section \<open>Data model\<close>

text \<open>
  A Python \<^verbatim>\<open>date\<close> is compared as the triple (year, month, day), a \<^verbatim>\<open>datetime\<close> is a
  date followed by (hour, minute, second); \<^verbatim>\<open>datetime.date()\<close> drops the time of day.
  Pairs are ordered lexicographically.
\<close>

type_synonym date = "nat \<times> nat \<times> nat"
type_synonym datetime = "date \<times> nat \<times> nat \<times> nat"

definition date_of :: "datetime \<Rightarrow> date" where
  "date_of dt = fst dt"

text \<open>The dataclass \<^verbatim>\<open>Article\<close>.\<close>

record Article =
  title :: string
  url :: string
  published :: datetime
  content :: string

text \<open>
  Exceptions that reach the model: \<^verbatim>\<open>PageNotFound\<close> is the repository's own class,
  \<^verbatim>\<open>IndexError\<close> and \<^verbatim>\<open>ValueError\<close> are raised by list indexing and by \<^verbatim>\<open>int\<close>,
  \<^verbatim>\<open>ParseError\<close> stands for a failure of the regular expression, of \<^verbatim>\<open>json.loads\<close>, of a
  key lookup or of \<^verbatim>\<open>strptime\<close> while a listing is decoded, \<^verbatim>\<open>MarkupError\<close> is raised by
  the \<^verbatim>\<open>print\<close> of \<^verbatim>\<open>rich\<close> on a line whose markup it rejects, the remaining ones come
  from the browser library.
\<close>

datatype error =
    PageNotFound
  | IndexError
  | ValueError
  | ParseError
  | MarkupError
  | ElementNotFoundError
  | WaitTimeoutError
  | BrowserError

text \<open>
  One entry of the decoded \<^verbatim>\<open>article_list\<close> payload; \<^verbatim>\<open>post_id\<close> is the text that
  formatting the identifier gives, \<^verbatim>\<open>post_publish_time\<close> the timestamp after \<^verbatim>\<open>strptime\<close>.
\<close>

record raw_article =
  post_title :: string
  post_id :: string
  post_publish_time :: datetime

text \<open>
  What the listing session shows after loading page 1 for the page count: a redirect to
  the error URL, an exception of the wait or of the element lookup, or the pager's
  \<^verbatim>\<open>li\<close> elements, each given by what \<^verbatim>\<open>int\<close> makes of its text (\<open>None\<close> when \<^verbatim>\<open>int\<close>
  raises \<^verbatim>\<open>ValueError\<close>).
\<close>

datatype first_page = ErrorRedirect | PagingFailed error | Paging "int option list"

text \<open>
  The content source is a parameter. The listing session is asked with the number of
  navigations it has done before, so the source may answer differently each time; the
  listing of a page is the entries that are decoded and yielded one after the other, and
  the exception, if any, that ends the decoding after them (a failure of the regular
  expression or of \<^verbatim>\<open>json.loads\<close> ends it before the first entry). A detail tab is asked
  with the article's URL. The console is a parameter too: \<open>print_line\<close> is what the
  \<^verbatim>\<open>print\<close> of \<^verbatim>\<open>rich\<close> does with the line that \<^verbatim>\<open>get_article_detail\<close> builds from the
  publication time and the title of an article; it raises \<^verbatim>\<open>MarkupError\<close> when the title
  holds a closing tag that matches no open one. The other lines printed hold only the
  stock code and numbers.
\<close>

record env =
  first_page_view :: "nat \<Rightarrow> first_page"
  listing :: "nat \<Rightarrow> int \<Rightarrow> raw_article list \<times> error option"
  print_line :: "datetime \<Rightarrow> string \<Rightarrow> error option"
  tab_open :: "string \<Rightarrow> error option"
  tab_get :: "string \<Rightarrow> error option"
  tab_wait :: "string \<Rightarrow> error option"
  tab_text :: "string \<Rightarrow> error + string"
  tab_close :: "string \<Rightarrow> error option"

text \<open>
  The object \<^verbatim>\<open>Fetcher\<close>: its attributes \<^verbatim>\<open>code\<close>, \<^verbatim>\<open>date\<close> and \<^verbatim>\<open>total_page\<close>, and the
  history of its effects: \<open>navs\<close> lists the page ordinals whose URL \<^verbatim>\<open>self.page.get\<close> has
  loaded, \<open>searching\<close> the pairs printed by the line \<^verbatim>\<open>Searching: {start} - {end}\<close>,
  \<open>submitted\<close> the articles handed to the worker pool.
\<close>

record Fetcher =
  code :: string
  date :: date
  total_page :: int
  navs :: "int list"
  searching :: "(int \<times> int) list"
  submitted :: "Article list"

definition Fetcher_init :: "string \<Rightarrow> date \<Rightarrow> Fetcher" where
  "Fetcher_init c d =
     \<lparr>code = c, date = d, total_page = - 1, navs = [], searching = [], submitted = []\<rparr>"

section \<open>Operations\<close>

definition get_article_url :: "string \<Rightarrow> string \<Rightarrow> string" where
  "get_article_url c pid = ''https://guba.eastmoney.com/news,'' @ c @ '','' @ pid @ ''.html''"

text \<open>
  \<^verbatim>\<open>get_article_list\<close> is a generator: the state after the navigation, the articles it
  yields, and the exception that ends it after them, if any. Both of its callers consume
  it whole: \<^verbatim>\<open>list(articles)\<close> raises that exception, and \<^verbatim>\<open>executor.map\<close> submits every
  article yielded and then raises it.
\<close>

definition get_article_list :: "env \<Rightarrow> Fetcher \<Rightarrow> int \<Rightarrow> Fetcher \<times> Article list \<times> error option" where
  "get_article_list ev s pn =
     (case listing ev (length (navs s)) pn of
        (articles, r) \<Rightarrow>
          (s\<lparr>navs := navs s @ [pn]\<rparr>,
           map (\<lambda>article.
                 \<lparr>title = post_title article,
                  url = get_article_url (code s) (post_id article),
                  published = post_publish_time article,
                  content = ''''\<rparr>) articles,
           r))"

definition get_total_page :: "env \<Rightarrow> Fetcher \<Rightarrow> Fetcher \<times> error option" where
  "get_total_page ev s =
     (if total_page s = - 1 then
        (let s' = s\<lparr>navs := navs s @ [1]\<rparr> in
         case first_page_view ev (length (navs s)) of
           ErrorRedirect \<Rightarrow> (s', Some PageNotFound)
         | PagingFailed e \<Rightarrow> (s', Some e)
         | Paging pagers \<Rightarrow>
             if length pagers < 2 then (s', Some IndexError)
             else (case pagers ! (length pagers - 2) of
                     None \<Rightarrow> (s', Some ValueError)
                   | Some last_page \<Rightarrow> (s'\<lparr>total_page := last_page\<rparr>, None)))
      else (s, None))"

text \<open>The body of the \<^verbatim>\<open>try\<close> block of \<^verbatim>\<open>get_article_detail\<close>, up to the text it reads.\<close>

definition detail_body :: "env \<Rightarrow> string \<Rightarrow> error + string" where
  "detail_body ev u =
     (case tab_get ev u of
        Some e \<Rightarrow> Inl e
      | None \<Rightarrow> (case tab_wait ev u of Some e \<Rightarrow> Inl e | None \<Rightarrow> tab_text ev u))"

text \<open>
  A run of \<^verbatim>\<open>get_article_detail\<close>: the article object when the call ends, the values
  assigned to its attribute \<^verbatim>\<open>content\<close> during the call, and the exception that leaves
  the call, if any. When none does, the call returns the object itself. The \<^verbatim>\<open>print\<close> of
  line 86 and the opening of the tab stand before the \<^verbatim>\<open>try\<close>, the closing of the tab in
  the \<^verbatim>\<open>finally\<close> clause.
\<close>

record detail_run =
  article_after :: Article
  content_writes :: "string list"
  raised :: "error option"

definition get_article_detail :: "env \<Rightarrow> Article \<Rightarrow> detail_run" where
  "get_article_detail ev article =
     (case print_line ev (published article) (title article) of
        Some e \<Rightarrow> \<lparr>article_after = article, content_writes = [], raised = Some e\<rparr>
      | None \<Rightarrow>
          (case tab_open ev (url article) of
             Some e \<Rightarrow> \<lparr>article_after = article, content_writes = [], raised = Some e\<rparr>
           | None \<Rightarrow>
               (case detail_body ev (url article) of
                  Inr text \<Rightarrow>
                    \<lparr>article_after = article\<lparr>content := text\<rparr>, content_writes = [text],
                     raised = tab_close ev (url article)\<rparr>
                | Inl e \<Rightarrow>
                    \<lparr>article_after = article, content_writes = [],
                     raised = tab_close ev (url article)\<rparr>)))"

definition get_date_range :: "Article list \<Rightarrow> error + date \<times> date" where
  "get_date_range articles =
     (if articles = [] then Inl IndexError
      else Inr (date_of (published (hd articles)), date_of (published (last articles))))"

text \<open>The \<^verbatim>\<open>while\<close> loop of \<^verbatim>\<open>get_articles_with_date\<close>, from the state at its test.\<close>

function bsearch :: "env \<Rightarrow> Fetcher \<Rightarrow> int \<Rightarrow> int \<Rightarrow> Fetcher \<times> (error + int \<times> int)" where
  "bsearch ev s start end =
     (if start \<le> end then
        (let s0 = s\<lparr>searching := searching s @ [(start, end)]\<rparr>;
             mid = (start + end) div 2 in
         case get_article_list ev s0 mid of
           (s', articles, Some e) \<Rightarrow> (s', Inl e)
         | (s', articles, None) \<Rightarrow>
             (case get_date_range articles of
                Inl e \<Rightarrow> (s', Inl e)
              | Inr (earliest_date_mid, latest_date_mid) \<Rightarrow>
                  if date s' > earliest_date_mid then bsearch ev s' start (mid - 1)
                  else if date s' < latest_date_mid then bsearch ev s' (mid + 1) end
                  else bsearch ev s' start (mid - 1)))
      else (s, Inr (start, end)))"
  by pat_completeness auto
termination
  by (relation "measure (\<lambda>(ev, s, start, end). nat (end - start + 1))") auto

declare bsearch.simps [simp del]

text \<open>Lines 127 and 128: the first and the last page ordinal of the pages then fetched.\<close>

definition fetch_window :: "int \<Rightarrow> int \<Rightarrow> int \<Rightarrow> int \<times> int" where
  "fetch_window tp start end =
     (if start - 1 > 0 then start - 1 else 1,
      if end + 1 \<le> tp then end + 1 else tp)"

text \<open>
  \<^verbatim>\<open>executor.map\<close> by what its result iterator delivers: the results in the order of
  submission, and the exception of a call at that call's position, which ends the
  iteration. The interleaving of the workers is not part of the model.
\<close>

fun executor_map :: "(Article \<Rightarrow> detail_run) \<Rightarrow> Article list \<Rightarrow> Article list \<times> error option" where
  "executor_map f [] = ([], None)"
| "executor_map f (a # as) =
     (case raised (f a) of
        Some e \<Rightarrow> ([], Some e)
      | None \<Rightarrow> (case executor_map f as of (out, r) \<Rightarrow> (article_after (f a) # out, r)))"

text \<open>
  The \<^verbatim>\<open>for\<close> loop over the pages of the window: the items yielded and how it ends.
  \<^verbatim>\<open>executor.map\<close> submits the articles while it consumes the generator, so those yielded
  before an exception of the generator are submitted, and none of their results is
  yielded.
\<close>

fun fetch_pages :: "env \<Rightarrow> Fetcher \<Rightarrow> int list \<Rightarrow> Fetcher \<times> Article list \<times> error option" where
  "fetch_pages ev s [] = (s, [], None)"
| "fetch_pages ev s (page # pages) =
     (case get_article_list ev s page of
        (s', articles, r) \<Rightarrow>
          (let s'' = s'\<lparr>submitted := submitted s' @ articles\<rparr> in
           case r of
             Some e \<Rightarrow> (s'', [], Some e)
           | None \<Rightarrow>
               (case executor_map (get_article_detail ev) articles of
                  (out, Some e) \<Rightarrow> (s'', out, Some e)
                | (out, None) \<Rightarrow>
                    (case fetch_pages ev s'' pages of
                       (s3, out', r') \<Rightarrow> (s3, out @ out', r')))))"

text \<open>
  \<^verbatim>\<open>get_articles_with_date\<close>, for a caller that iterates the generator to its end (as
  the \<^verbatim>\<open>for\<close> loop of the main program does): the final state, the items yielded in
  order, and the exception that ends the generator, if any.
\<close>

definition get_articles_with_date :: "env \<Rightarrow> Fetcher \<Rightarrow> Fetcher \<times> Article list \<times> error option" where
  "get_articles_with_date ev s =
     (case get_total_page ev s of
        (s1, Some e) \<Rightarrow> (s1, [], Some e)
      | (s1, None) \<Rightarrow>
          (case bsearch ev s1 1 (total_page s1) of
             (s2, Inl e) \<Rightarrow> (s2, [], Some e)
           | (s2, Inr (start, end)) \<Rightarrow>
               (case fetch_window (total_page s2) start end of
                  (start_page, end_page) \<Rightarrow> fetch_pages ev s2 [start_page..end_page])))"


section \<open>The trace of the search\<close>

text \<open>The page ordinal probed by an iteration that starts with the bounds \<open>(start, end)\<close>.\<close>

definition mid_of :: "int \<times> int \<Rightarrow> int" where
  "mid_of se = (fst se + snd se) div 2"

text \<open>The state after the print and the navigation of one iteration.\<close>

definition probe_state :: "Fetcher \<Rightarrow> int \<Rightarrow> int \<Rightarrow> Fetcher" where
  "probe_state s a b = s\<lparr>searching := searching s @ [(a, b)], navs := navs s @ [(a + b) div 2]\<rparr>"

text \<open>
  A list of bounds is a path of the search from \<open>(a, b)\<close>: it starts there, and each
  next pair is the left or the right remainder around the middle.
\<close>

fun halving :: "int \<Rightarrow> int \<Rightarrow> (int \<times> int) list \<Rightarrow> bool" where
  "halving a b [] = True"
| "halving a b (se # tr) =
     (se = (a, b) \<and> a \<le> b \<and>
      (halving a ((a + b) div 2 - 1) tr \<or> halving ((a + b) div 2 + 1) b tr))"

section \<open>A listing of three pages\<close>

definition raw_on :: "nat \<Rightarrow> raw_article" where
  "raw_on d =
     \<lparr>post_title = ''post'', post_id = ''7'', post_publish_time = ((2024, 1, d), (9, 30, 0))\<rparr>"

definition demo_pages :: "int \<Rightarrow> raw_article list \<times> error option" where
  "demo_pages pn =
     (if pn = 1 then ([raw_on 12, raw_on 11], None)
      else if pn = 2 then ([raw_on 10, raw_on 10], None)
      else if pn = 3 then ([raw_on 10, raw_on 8], None)
      else ([], Some ParseError))"

definition demo_env :: env where
  "demo_env =
     \<lparr>first_page_view = (\<lambda>t. Paging [None, Some 1, Some 2, Some 3, None]),
      listing = (\<lambda>t. demo_pages),
      print_line = (\<lambda>p t. None),
      tab_open = (\<lambda>u. None), tab_get = (\<lambda>u. None), tab_wait = (\<lambda>u. None),
      tab_text = (\<lambda>u. Inr ''body''), tab_close = (\<lambda>u. None)\<rparr>"

definition demo_item :: "string \<Rightarrow> Article" where
  "demo_item pid =
     \<lparr>title = ''post'', url = get_article_url ''600000'' pid,
      published = ((2024, 1, 10), (9, 30, 0)), content = ''''\<rparr>"

definition demo_fetcher :: Fetcher where
  "demo_fetcher = Fetcher_init ''600000'' (2024, 1, 10)"

text \<open>The same stock, asked for the day of the newest post.\<close>

definition newest_fetcher :: Fetcher where
  "newest_fetcher = Fetcher_init ''600000'' (2024, 1, 12)"

text \<open>Variations of the content source: a browser that cannot open a tab, a console
  that rejects the title \<open>x[/b]\<close> and an item of that title, a browser that cannot close
  a tab, a detail page without body for the post 8, a stock that does not
  exist, and a pager that shows 0 as the last page.\<close>

definition no_tab_env :: env where
  "no_tab_env = demo_env\<lparr>tab_open := (\<lambda>u. Some BrowserError)\<rparr>"

definition markup_env :: env where
  "markup_env = demo_env\<lparr>print_line := (\<lambda>p t. if t = ''x[/b]'' then Some MarkupError else None)\<rparr>"

definition tagged_item :: Article where
  "tagged_item = (demo_item ''7'')\<lparr>title := ''x[/b]''\<rparr>"

definition stuck_tab_env :: env where
  "stuck_tab_env = demo_env\<lparr>tab_close := (\<lambda>u. Some BrowserError)\<rparr>"

definition flaky_env :: env where
  "flaky_env = demo_env\<lparr>tab_text := (\<lambda>u. if u = get_article_url ''600000'' ''8''
     then Inl ElementNotFoundError else Inr ''body'')\<rparr>"

definition not_found_env :: env where
  "not_found_env = demo_env\<lparr>first_page_view := (\<lambda>t. ErrorRedirect)\<rparr>"

definition empty_source_env :: env where
  "empty_source_env = demo_env\<lparr>first_page_view := (\<lambda>t. Paging [None, Some 0, None])\<rparr>"

section \<open>The locator as the specification words it\<close>

text \<open>
  Given the newest and the oldest day of every page: the first page from 1 to \<open>tp\<close> whose
  range contains the day \<open>d\<close>; when there is none, the first page whose newest day is
  before \<open>d\<close>; when there is none either, \<open>tp + 1\<close>.
\<close>

definition locate_spec :: "(int \<Rightarrow> date) \<Rightarrow> (int \<Rightarrow> date) \<Rightarrow> date \<Rightarrow> int \<Rightarrow> int" where
  "locate_spec newest oldest d tp =
     (case find (\<lambda>p. oldest p \<le> d \<and> d \<le> newest p) [1..tp] of
        Some p \<Rightarrow> p
      | None \<Rightarrow> (case find (\<lambda>p. newest p < d) [1..tp] of Some p \<Rightarrow> p | None \<Rightarrow> tp + 1))"

text \<open>The three pages with an empty second page, and the day ranges of the three pages.\<close>

definition hollow_env :: env where
  "hollow_env = demo_env\<lparr>listing := (\<lambda>t pn. if pn = 2 then ([], None) else demo_pages pn)\<rparr>"

definition demo_newest :: "int \<Rightarrow> date" where
  "demo_newest p = (if p = 1 then (2024, 1, 12) else (2024, 1, 10))"

definition demo_oldest :: "int \<Rightarrow> date" where
  "demo_oldest p = (if p = 1 then (2024, 1, 11) else if p = 2 then (2024, 1, 10) else (2024, 1, 8))"

section \<open>The search loop, one iteration at a time\<close>

lemma probe_state_simps [simp]:
  "code (probe_state s a b) = code s"
  "date (probe_state s a b) = date s"
  "total_page (probe_state s a b) = total_page s"
  "submitted (probe_state s a b) = submitted s"
  "navs (probe_state s a b) = navs s @ [(a + b) div 2]"
  "searching (probe_state s a b) = searching s @ [(a, b)]"
  by (simp_all add: probe_state_def)

lemma bsearch_stop: "\<not> a \<le> b \<Longrightarrow> bsearch ev s a b = (s, Inr (a, b))"
  by (subst bsearch.simps) simp

lemma bsearch_unfold:
  "a \<le> b \<Longrightarrow> bsearch ev s a b =
     (case listing ev (length (navs s)) ((a + b) div 2) of
        (raws, Some e) \<Rightarrow> (probe_state s a b, Inl e)
      | (raws, None) \<Rightarrow>
          if raws = [] then (probe_state s a b, Inl IndexError)
          else if date_of (post_publish_time (hd raws)) < date s
            then bsearch ev (probe_state s a b) a ((a + b) div 2 - 1)
          else if date s < date_of (post_publish_time (last raws))
            then bsearch ev (probe_state s a b) ((a + b) div 2 + 1) b
          else bsearch ev (probe_state s a b) a ((a + b) div 2 - 1))"
  by (subst bsearch.simps)
     (simp add: get_article_list_def get_date_range_def probe_state_def Let_def hd_map last_map
           split: prod.splits option.splits)

lemma bsearch_cases [consumes 1, case_names stop fail left right]:
  assumes "bsearch ev s a b = (s', r)"
  obtains
    "\<not> a \<le> b" "s' = s" "r = Inr (a, b)"
  | e where "a \<le> b" "s' = probe_state s a b" "r = Inl e"
      "(\<exists>raws. listing ev (length (navs s)) ((a + b) div 2) = (raws, Some e)) \<or>
       (listing ev (length (navs s)) ((a + b) div 2) = ([], None) \<and> e = IndexError)"
  | raws where "a \<le> b" "listing ev (length (navs s)) ((a + b) div 2) = (raws, None)" "raws \<noteq> []"
      "date_of (post_publish_time (hd raws)) < date s \<or> \<not> date s < date_of (post_publish_time (last raws))"
      "bsearch ev (probe_state s a b) a ((a + b) div 2 - 1) = (s', r)"
  | raws where "a \<le> b" "listing ev (length (navs s)) ((a + b) div 2) = (raws, None)" "raws \<noteq> []"
      "\<not> date_of (post_publish_time (hd raws)) < date s" "date s < date_of (post_publish_time (last raws))"
      "bsearch ev (probe_state s a b) ((a + b) div 2 + 1) b = (s', r)"
proof (cases "a \<le> b")
  case False
  with assms that(1) show ?thesis by (simp add: bsearch_stop)
next
  case True
  obtain raws x where L: "listing ev (length (navs s)) ((a + b) div 2) = (raws, x)"
    by (cases "listing ev (length (navs s)) ((a + b) div 2)")
  show ?thesis
  proof (cases x)
    case (Some e)
    with assms True L have "s' = probe_state s a b" "r = Inl e"
      by (auto simp: bsearch_unfold)
    with True L Some that(2) show ?thesis by blast
  next
    case None
    note Inr = L [unfolded None]
    show ?thesis
    proof (cases "raws = []")
      case True
      with assms \<open>a \<le> b\<close> Inr have "s' = probe_state s a b" "r = Inl IndexError"
        by (auto simp: bsearch_unfold)
      with \<open>a \<le> b\<close> Inr True that(2) show ?thesis by blast
    next
      case False
      show ?thesis
      proof (cases "date_of (post_publish_time (hd raws)) < date s \<or>
                    \<not> date s < date_of (post_publish_time (last raws))")
        case True
        with assms \<open>a \<le> b\<close> Inr False
        have "bsearch ev (probe_state s a b) a ((a + b) div 2 - 1) = (s', r)"
          by (auto simp: bsearch_unfold split: if_splits)
        with \<open>a \<le> b\<close> Inr False True that(3) show ?thesis by blast
      next
        case nl: False
        with assms \<open>a \<le> b\<close> Inr False
        have "bsearch ev (probe_state s a b) ((a + b) div 2 + 1) b = (s', r)"
          by (auto simp: bsearch_unfold split: if_splits)
        with \<open>a \<le> b\<close> Inr False nl that(4) show ?thesis by blast
      qed
    qed
  qed
qed

lemma halving_bounds:
  "halving a b tr \<Longrightarrow> (x, y) \<in> set tr \<Longrightarrow> a \<le> x \<and> y \<le> b \<and> x \<le> y"
proof (induction tr arbitrary: a b)
  case Nil
  then show ?case by simp
next
  case (Cons se tr)
  show ?case
  proof (cases "(x, y) = se")
    case True
    with Cons.prems show ?thesis by auto
  next
    case False
    with Cons.prems have mem: "(x, y) \<in> set tr" by auto
    from Cons.prems have "a \<le> b"
      and "halving a ((a + b) div 2 - 1) tr \<or> halving ((a + b) div 2 + 1) b tr" by auto
    then show ?thesis
    proof (elim disjE)
      assume "halving a ((a + b) div 2 - 1) tr"
      from Cons.IH [OF this mem] \<open>a \<le> b\<close> show ?thesis by linarith
    next
      assume "halving ((a + b) div 2 + 1) b tr"
      from Cons.IH [OF this mem] \<open>a \<le> b\<close> show ?thesis by linarith
    qed
  qed
qed

lemma halving_mid_bounds:
  assumes "halving a b tr" "se \<in> set tr"
  shows "a \<le> mid_of se \<and> mid_of se \<le> b"
proof -
  obtain x y where se: "se = (x, y)" by (cases se)
  with halving_bounds [OF assms(1), of x y] assms(2) have "a \<le> x \<and> y \<le> b \<and> x \<le> y" by simp
  then show ?thesis by (simp add: se mid_of_def) linarith
qed

lemma halving_distinct: "halving a b tr \<Longrightarrow> distinct (map mid_of tr)"
proof (induction tr arbitrary: a b)
  case Nil
  then show ?case by simp
next
  case (Cons se tr)
  from Cons.prems have se: "se = (a, b)" and ab: "a \<le> b"
    and rest: "halving a ((a + b) div 2 - 1) tr \<or> halving ((a + b) div 2 + 1) b tr" by auto
  from rest have "mid_of se \<notin> mid_of ` set tr \<and> distinct (map mid_of tr)"
  proof (elim disjE)
    assume h: "halving a ((a + b) div 2 - 1) tr"
    have "\<forall>x\<in>set tr. mid_of se \<noteq> mid_of x"
      using halving_mid_bounds [OF h] by (fastforce simp: se mid_of_def)
    with Cons.IH [OF h] show ?thesis by blast
  next
    assume h: "halving ((a + b) div 2 + 1) b tr"
    have "\<forall>x\<in>set tr. mid_of se \<noteq> mid_of x"
      using halving_mid_bounds [OF h] by (fastforce simp: se mid_of_def)
    with Cons.IH [OF h] show ?thesis by blast
  qed
  then show ?case by simp
qed

lemma halving_empty: "halving a b tr \<Longrightarrow> \<not> a \<le> b \<Longrightarrow> tr = []"
  by (cases tr) auto

lemma halving_length: "halving a b tr \<Longrightarrow> a \<le> b \<Longrightarrow> 2 ^ length tr \<le> 2 * nat (b - a + 1)"
proof (induction tr arbitrary: a b)
  case Nil
  then show ?case by simp
next
  case (Cons se tr)
  from Cons.prems have ab: "a \<le> b"
    and rest: "halving a ((a + b) div 2 - 1) tr \<or> halving ((a + b) div 2 + 1) b tr" by auto
  from rest have "2 ^ length tr \<le> nat (b - a + 1)"
  proof (elim disjE)
    assume h: "halving a ((a + b) div 2 - 1) tr"
    show ?thesis
    proof (cases "a \<le> (a + b) div 2 - 1")
      case True
      from Cons.IH [OF h True] have "2 ^ length tr \<le> 2 * nat ((a + b) div 2 - 1 - a + 1)" .
      also have "\<dots> \<le> nat (b - a + 1)" using ab by linarith
      finally show ?thesis .
    next
      case False
      with halving_empty [OF h] ab show ?thesis by simp
    qed
  next
    assume h: "halving ((a + b) div 2 + 1) b tr"
    show ?thesis
    proof (cases "(a + b) div 2 + 1 \<le> b")
      case True
      from Cons.IH [OF h True] have "2 ^ length tr \<le> 2 * nat (b - ((a + b) div 2 + 1) + 1)" .
      also have "\<dots> \<le> nat (b - a + 1)" using ab by linarith
      finally show ?thesis .
    next
      case False
      with halving_empty [OF h] ab show ?thesis by simp
    qed
  qed
  then show ?case by simp
qed

lemma halving_widths:
  "halving a b tr \<Longrightarrow> sorted_wrt (\<lambda>x y. snd y - fst y < snd x - fst x) tr"
proof (induction tr arbitrary: a b)
  case Nil
  then show ?case by simp
next
  case (Cons se tr)
  from Cons.prems have se: "se = (a, b)" and ab: "a \<le> b"
    and rest: "halving a ((a + b) div 2 - 1) tr \<or> halving ((a + b) div 2 + 1) b tr" by auto
  from rest show ?case
  proof (elim disjE)
    assume h: "halving a ((a + b) div 2 - 1) tr"
    have "\<And>x. x \<in> set tr \<Longrightarrow> snd x - fst x < b - a"
      using halving_bounds [OF h] ab by (fastforce simp: prod_eq_iff)
    with Cons.IH [OF h] show ?thesis by (simp add: se)
  next
    assume h: "halving ((a + b) div 2 + 1) b tr"
    have "\<And>x. x \<in> set tr \<Longrightarrow> snd x - fst x < b - a"
      using halving_bounds [OF h] ab by (fastforce simp: prod_eq_iff)
    with Cons.IH [OF h] show ?thesis by (simp add: se)
  qed
qed

lemma bsearch_trace:
  "bsearch ev s a b = (s', r) \<Longrightarrow>
     \<exists>tr. searching s' = searching s @ tr \<and> navs s' = navs s @ map mid_of tr \<and> halving a b tr"
proof (induction "nat (b - a + 1)" arbitrary: s a b rule: less_induct)
  case less
  from less.prems show ?case
  proof (cases rule: bsearch_cases)
    case stop
    then show ?thesis by simp
  next
    case (fail e)
    then have "searching s' = searching s @ [(a, b)] \<and> navs s' = navs s @ map mid_of [(a, b)] \<and>
      halving a b [(a, b)]" by (simp add: mid_of_def)
    then show ?thesis by blast
  next
    case (left raws)
    have "nat ((a + b) div 2 - 1 - a + 1) < nat (b - a + 1)" using left(1) by linarith
    from less.hyps [OF this left(5)] obtain tr where
      "searching s' = searching (probe_state s a b) @ tr"
      "navs s' = navs (probe_state s a b) @ map mid_of tr" "halving a ((a + b) div 2 - 1) tr"
      by blast
    with left(1) have "searching s' = searching s @ (a, b) # tr \<and>
      navs s' = navs s @ map mid_of ((a, b) # tr) \<and> halving a b ((a, b) # tr)"
      by (simp add: mid_of_def)
    then show ?thesis by blast
  next
    case (right raws)
    have "nat (b - ((a + b) div 2 + 1) + 1) < nat (b - a + 1)" using right(1) by linarith
    from less.hyps [OF this right(6)] obtain tr where
      "searching s' = searching (probe_state s a b) @ tr"
      "navs s' = navs (probe_state s a b) @ map mid_of tr" "halving ((a + b) div 2 + 1) b tr"
      by blast
    with right(1) have "searching s' = searching s @ (a, b) # tr \<and>
      navs s' = navs s @ map mid_of ((a, b) # tr) \<and> halving a b ((a, b) # tr)"
      by (simp add: mid_of_def)
    then show ?thesis by blast
  qed
qed

lemma bsearch_frame:
  "bsearch ev s a b = (s', r) \<Longrightarrow>
     code s' = code s \<and> date s' = date s \<and> total_page s' = total_page s \<and>
     submitted s' = submitted s"
proof (induction "nat (b - a + 1)" arbitrary: s a b rule: less_induct)
  case less
  from less.prems show ?case
  proof (cases rule: bsearch_cases)
    case stop
    then show ?thesis by simp
  next
    case (fail e)
    then show ?thesis by simp
  next
    case (left raws)
    have "nat ((a + b) div 2 - 1 - a + 1) < nat (b - a + 1)" using left(1) by linarith
    from less.hyps [OF this left(5)] show ?thesis by simp
  next
    case (right raws)
    have "nat (b - ((a + b) div 2 + 1) + 1) < nat (b - a + 1)" using right(1) by linarith
    from less.hyps [OF this right(6)] show ?thesis by simp
  qed
qed

lemma bsearch_exit:
  "bsearch ev s a b = (s', Inr (p, e)) \<Longrightarrow> a \<le> b + 1 \<Longrightarrow> a \<le> p \<and> e \<le> b \<and> e = p - 1"
proof (induction "nat (b - a + 1)" arbitrary: s a b rule: less_induct)
  case less
  from less.prems(1) show ?case
  proof (cases rule: bsearch_cases)
    case stop
    with less.prems(2) show ?thesis by simp
  next
    case (fail e)
    then show ?thesis by simp
  next
    case (left raws)
    have "nat ((a + b) div 2 - 1 - a + 1) < nat (b - a + 1)" using left(1) by linarith
    from less.hyps [OF this left(5)] left(1) show ?thesis by linarith
  next
    case (right raws)
    have "nat (b - ((a + b) div 2 + 1) + 1) < nat (b - a + 1)" using right(1) by linarith
    from less.hyps [OF this right(6)] right(1) show ?thesis by linarith
  qed
qed



section \<open>The search on the three pages\<close>

lemmas demo_defs = demo_env_def demo_pages_def raw_on_def demo_fetcher_def Fetcher_init_def
  demo_item_def no_tab_env_def stuck_tab_env_def flaky_env_def not_found_env_def
  empty_source_env_def newest_fetcher_def get_article_url_def markup_env_def tagged_item_def

lemma demo_search:
  "bsearch demo_env (demo_fetcher\<lparr>total_page := 3\<rparr>) 1 3 =
     (demo_fetcher\<lparr>total_page := 3, navs := [2, 1], searching := [(1, 3), (1, 1)]\<rparr>, Inr (2, 1))"
  by (simp add: bsearch.simps get_article_list_def get_date_range_def demo_env_def
        demo_pages_def raw_on_def demo_fetcher_def Fetcher_init_def date_of_def Let_def)

section \<open>Bounds of the search\<close>

text \<open>
  Claim C6. For a page count of at least 1 and whatever the listing answers at each
  probe, every pair of bounds \<open>(lo, hi)\<close> with which the loop runs an iteration has
  \<open>1 \<le> lo\<close> and \<open>hi \<le> total_page\<close>, and when the loop ends without an exception the
  page ordinal \<open>p\<close> it leaves in \<open>start\<close> lies between 1 and \<open>total_page + 1\<close>, with
  \<open>end = p - 1\<close>.
\<close>

theorem search_bounds_invariant:
  assumes "1 \<le> tp" and "bsearch ev s 1 tp = (s', r)"
  shows "(\<forall>(lo, hi) \<in> set (drop (length (searching s)) (searching s')). 1 \<le> lo \<and> hi \<le> tp) \<and>
         (\<forall>p e. r = Inr (p, e) \<longrightarrow> 1 \<le> p \<and> p \<le> tp + 1 \<and> e = p - 1)"
proof -
  from bsearch_trace [OF assms(2)] obtain tr where
    tr: "searching s' = searching s @ tr" and h: "halving 1 tp tr" by blast
  have "\<forall>(lo, hi) \<in> set tr. 1 \<le> lo \<and> hi \<le> tp"
    using halving_bounds [OF h] by blast
  moreover have "\<forall>p e. r = Inr (p, e) \<longrightarrow> 1 \<le> p \<and> p \<le> tp + 1 \<and> e = p - 1"
  proof (intro allI impI)
    fix p e assume "r = Inr (p, e)"
    with assms(2) have "bsearch ev s 1 tp = (s', Inr (p, e))" by simp
    from bsearch_exit [OF this] assms(1) show "1 \<le> p \<and> p \<le> tp + 1 \<and> e = p - 1"
      by linarith
  qed
  ultimately show ?thesis by (simp add: tr)
qed

theorem search_bounds_invariant_witness:
  "(1::int) \<le> 3 \<and>
   bsearch demo_env (demo_fetcher\<lparr>total_page := 3\<rparr>) 1 3 =
     (demo_fetcher\<lparr>total_page := 3, navs := [2, 1], searching := [(1, 3), (1, 1)]\<rparr>, Inr (2, 1)) \<and>
   list_all (\<lambda>(lo, hi). (1::int) \<le> lo \<and> hi \<le> (3::int)) [(1, 3), (1, 1)] \<and>
   (1::int) \<le> 2 \<and> (2::int) \<le> 3 + 1 \<and> (1::int) = 2 - 1"
proof -
  have one: "(1::int) \<le> 3" by simp
  from search_bounds_invariant [OF one demo_search] demo_search show ?thesis
    by (simp add: demo_fetcher_def Fetcher_init_def)
qed

section \<open>Probes of the search\<close>

text \<open>
  Claim C5. The loop is the function \<open>bsearch\<close>, total by its termination proof (the
  width \<open>end - start + 1\<close> decreases). For a page count \<open>tp\<close> of at least 1, the pages it
  loads are pairwise distinct, their number \<open>n\<close> satisfies \<open>2 ^ n \<le> 2 * tp\<close> (at most
  \<open>log\<^sub>2 tp + 1\<close> listing fetches), each of them is the middle of the bounds of its
  iteration, and the width of the bounds gets strictly smaller from each iteration to
  every later one.
\<close>

theorem search_probes_logarithmic:
  assumes "1 \<le> tp"
  shows "distinct (drop (length (navs s)) (navs (fst (bsearch ev s 1 tp)))) \<and>
         2 ^ length (drop (length (navs s)) (navs (fst (bsearch ev s 1 tp)))) \<le> 2 * nat tp \<and>
         drop (length (navs s)) (navs (fst (bsearch ev s 1 tp))) =
           map mid_of (drop (length (searching s)) (searching (fst (bsearch ev s 1 tp)))) \<and>
         sorted_wrt (\<lambda>x y. snd y - fst y < snd x - fst x)
           (drop (length (searching s)) (searching (fst (bsearch ev s 1 tp))))"
proof -
  obtain s' r where run: "bsearch ev s 1 tp = (s', r)" by (cases "bsearch ev s 1 tp")
  from bsearch_trace [OF run] obtain tr where
    tr: "searching s' = searching s @ tr" "navs s' = navs s @ map mid_of tr"
    and h: "halving 1 tp tr" by blast
  from halving_length [OF h assms] have "2 ^ length tr \<le> 2 * nat tp" by simp
  with halving_distinct [OF h] halving_widths [OF h] show ?thesis
    by (simp add: run tr)
qed

theorem search_probes_logarithmic_witness:
  "(1::int) \<le> 3 \<and>
   drop 0 (navs (fst (bsearch demo_env (demo_fetcher\<lparr>total_page := 3\<rparr>) 1 3))) = [2, 1] \<and>
   distinct [2, 1 :: int] \<and> (2::nat) ^ length [2, 1 :: int] \<le> 2 * nat 3"
proof -
  have one: "(1::int) \<le> 3" by simp
  from search_probes_logarithmic [OF one, of "demo_fetcher\<lparr>total_page := 3\<rparr>" demo_env]
  show ?thesis unfolding demo_search by (simp add: demo_fetcher_def Fetcher_init_def)
qed


section \<open>The detail fetch\<close>







section \<open>The page count\<close>

text \<open>
  Claim C10, as the code has it. A first call that ends with \<^verbatim>\<open>PageNotFound\<close> leaves
  \<^verbatim>\<open>total_page\<close> at -1, and the call after it loads page 1 again.
\<close>

theorem get_total_page_navigates_again:
  "snd (get_total_page not_found_env demo_fetcher) = Some PageNotFound \<and>
   navs (fst (get_total_page not_found_env demo_fetcher)) = [1] \<and>
   navs (fst (get_total_page not_found_env (fst (get_total_page not_found_env demo_fetcher)))) = [1, 1]"
  by (simp add: get_total_page_def demo_defs)

text \<open>
  Claim C10, amended. A call of \<^verbatim>\<open>get_total_page\<close> with \<^verbatim>\<open>total_page\<close> other than -1
  loads nothing, changes nothing and returns. A call with \<^verbatim>\<open>total_page = -1\<close> loads
  page 1 once; when it returns, \<^verbatim>\<open>total_page\<close> is the number on the pager's entry before
  the last; when it raises, \<^verbatim>\<open>total_page\<close> is still -1.
\<close>

theorem get_total_page_cached:
  "(total_page s \<noteq> - 1 \<longrightarrow> get_total_page ev s = (s, None)) \<and>
   (total_page s = - 1 \<longrightarrow>
      navs (fst (get_total_page ev s)) = navs s @ [1] \<and>
      (snd (get_total_page ev s) = None \<longrightarrow>
         (\<exists>pagers. first_page_view ev (length (navs s)) = Paging pagers \<and> 2 \<le> length pagers \<and>
            pagers ! (length pagers - 2) = Some (total_page (fst (get_total_page ev s))))) \<and>
      (snd (get_total_page ev s) \<noteq> None \<longrightarrow> total_page (fst (get_total_page ev s)) = - 1))"
  by (auto simp: get_total_page_def Let_def split: first_page.splits option.splits)

theorem get_total_page_cached_witness:
  "total_page demo_fetcher = - 1 \<and>
   get_total_page demo_env demo_fetcher = (demo_fetcher\<lparr>total_page := 3, navs := [1]\<rparr>, None) \<and>
   get_total_page demo_env (demo_fetcher\<lparr>total_page := 3, navs := [1]\<rparr>) =
     (demo_fetcher\<lparr>total_page := 3, navs := [1]\<rparr>, None)"
  using get_total_page_cached [of demo_fetcher demo_env]
    get_total_page_cached [of "demo_fetcher\<lparr>total_page := 3, navs := [1]\<rparr>" demo_env]
  by (simp add: get_total_page_def demo_defs)

section \<open>A source without pages\<close>

text \<open>
  Claim C8, as the code has it. With 0 as the page count the run ends without an
  exception and without an item.
\<close>

theorem empty_source_returns_silently:
  "get_articles_with_date empty_source_env demo_fetcher =
     (demo_fetcher\<lparr>total_page := 0, navs := [1]\<rparr>, [], None)"
  by (simp add: get_articles_with_date_def get_total_page_def bsearch.simps fetch_window_def demo_defs)

text \<open>
  Claim C8, amended. When the page count found is 0, the loop does not run: it leaves
  \<open>start = 1\<close> and \<open>end = 0\<close> without a probe, the window of pages is empty, and
  \<^verbatim>\<open>get_articles_with_date\<close> ends normally after yielding nothing.
\<close>

theorem empty_source_no_probe:
  assumes "get_total_page ev s = (s1, None)" and "total_page s1 = 0"
  shows "bsearch ev s1 1 (total_page s1) = (s1, Inr (1, 0)) \<and>
         get_articles_with_date ev s = (s1, [], None)"
  using assms by (simp add: get_articles_with_date_def bsearch_stop fetch_window_def)

theorem empty_source_no_probe_witness:
  "get_total_page empty_source_env demo_fetcher = (demo_fetcher\<lparr>total_page := 0, navs := [1]\<rparr>, None) \<and>
   total_page (demo_fetcher\<lparr>total_page := 0, navs := [1]\<rparr>) = 0 \<and>
   bsearch empty_source_env (demo_fetcher\<lparr>total_page := 0, navs := [1]\<rparr>) 1 0 =
     (demo_fetcher\<lparr>total_page := 0, navs := [1]\<rparr>, Inr (1, 0))"
proof -
  have a: "get_total_page empty_source_env demo_fetcher =
      (demo_fetcher\<lparr>total_page := 0, navs := [1]\<rparr>, None)"
    by (simp add: get_total_page_def demo_defs)
  have b: "total_page (demo_fetcher\<lparr>total_page := 0, navs := [1]\<rparr>) = 0" by simp
  from empty_source_no_probe [OF a b] a show ?thesis by simp
qed

section \<open>The window of pages\<close>

text \<open>When the loop has ended, \<open>end + 1\<close> is \<open>start\<close>: the window ends at the page found.\<close>

lemma fetch_window_exit: "fetch_window tp p (p - 1) = (max 1 (p - 1), min tp p)"
  by (auto simp: fetch_window_def)

text \<open>
  Claim C1, on the code. Of three pages, asked for the day of the newest post, the
  search ends with \<open>start = 1\<close> and \<open>end = 0\<close>; the window is then \<open>(1, 1)\<close>, not
  \<open>(1, 2)\<close>, and after the page count and the two probes only page 1 is loaded.
\<close>

theorem fetch_window_omits_next_page:
  "bsearch demo_env (newest_fetcher\<lparr>total_page := 3\<rparr>) 1 3 =
     (newest_fetcher\<lparr>total_page := 3, navs := [2, 1], searching := [(1, 3), (1, 1)]\<rparr>, Inr (1, 0)) \<and>
   fetch_window 3 1 0 = (1, 1) \<and>
   navs (fst (get_articles_with_date demo_env newest_fetcher)) = [1, 2, 1, 1]"
  by (simp add: get_articles_with_date_def get_total_page_def bsearch.simps fetch_window_def
        get_article_list_def get_date_range_def date_of_def Let_def get_article_detail_def
        detail_body_def demo_defs)


section \<open>Correctness of the search\<close>

lemma find_upto_None: "find P [a..b] = None \<longleftrightarrow> (\<forall>q. a \<le> q \<and> q \<le> b \<longrightarrow> \<not> P q)"
  by (auto simp: find_None_iff)

lemma find_upto_Some:
  "find P [a..b] = Some p \<longleftrightarrow> a \<le> p \<and> p \<le> b \<and> P p \<and> (\<forall>q. a \<le> q \<and> q < p \<longrightarrow> \<not> P q)"
proof (induction a b rule: upto.induct)
  case (1 i j)
  show ?case
  proof (cases "i \<le> j")
    case False
    then show ?thesis by auto
  next
    case True
    then have u: "[i..j] = i # [i + 1..j]" by (simp add: upto_rec1)
    show ?thesis
    proof (cases "P i")
      case True
      have "(i = p) = (i \<le> p \<and> p \<le> j \<and> P p \<and> (\<forall>q. i \<le> q \<and> q < p \<longrightarrow> \<not> P q))"
      proof
        assume "i = p"
        with True \<open>i \<le> j\<close> show "i \<le> p \<and> p \<le> j \<and> P p \<and> (\<forall>q. i \<le> q \<and> q < p \<longrightarrow> \<not> P q)"
          by auto
      next
        assume r: "i \<le> p \<and> p \<le> j \<and> P p \<and> (\<forall>q. i \<le> q \<and> q < p \<longrightarrow> \<not> P q)"
        with True have "\<not> i < p" by blast
        with r show "i = p" by simp
      qed
      then show ?thesis by (simp add: u True)
    next
      case False
      have "(i + 1 \<le> p \<and> p \<le> j \<and> P p \<and> (\<forall>q. i + 1 \<le> q \<and> q < p \<longrightarrow> \<not> P q)) =
            (i \<le> p \<and> p \<le> j \<and> P p \<and> (\<forall>q. i \<le> q \<and> q < p \<longrightarrow> \<not> P q))"
      proof
        assume l: "i + 1 \<le> p \<and> p \<le> j \<and> P p \<and> (\<forall>q. i + 1 \<le> q \<and> q < p \<longrightarrow> \<not> P q)"
        have "\<forall>q. i \<le> q \<and> q < p \<longrightarrow> \<not> P q"
        proof (intro allI impI)
          fix q assume q: "i \<le> q \<and> q < p"
          show "\<not> P q"
          proof (cases "q = i")
            case True
            with False show ?thesis by simp
          next
            case False
            with q have "i + 1 \<le> q \<and> q < p" by simp
            with l show ?thesis by simp
          qed
        qed
        with l show "i \<le> p \<and> p \<le> j \<and> P p \<and> (\<forall>q. i \<le> q \<and> q < p \<longrightarrow> \<not> P q)"
          by simp
      next
        assume r: "i \<le> p \<and> p \<le> j \<and> P p \<and> (\<forall>q. i \<le> q \<and> q < p \<longrightarrow> \<not> P q)"
        with False have "p \<noteq> i" by auto
        with r have "i + 1 \<le> p" by simp
        with r show "i + 1 \<le> p \<and> p \<le> j \<and> P p \<and> (\<forall>q. i + 1 \<le> q \<and> q < p \<longrightarrow> \<not> P q)"
          by simp
      qed
      with 1 [OF True] show ?thesis by (simp add: u False)
    qed
  qed
qed

lemma bsearch_least:
  "\<lbrakk>\<forall>t p. a \<le> p \<and> p \<le> b \<longrightarrow>
       (\<exists>raws. listing ev t p = (raws, None) \<and> raws \<noteq> [] \<and>
          date_of (post_publish_time (hd raws)) = newest p \<and>
          date_of (post_publish_time (last raws)) = oldest p);
    \<forall>i j. a \<le> i \<and> i \<le> j \<and> j \<le> b \<longrightarrow> newest j \<le> newest i \<and> oldest j \<le> oldest i;
    a \<le> b + 1\<rbrakk> \<Longrightarrow>
   \<exists>s' p. bsearch ev s a b = (s', Inr (p, p - 1)) \<and> a \<le> p \<and> p \<le> b + 1 \<and>
     (\<forall>q. a \<le> q \<and> q < p \<longrightarrow> date s \<le> newest q \<and> date s < oldest q) \<and>
     (\<forall>q. p \<le> q \<and> q \<le> b \<longrightarrow> newest q < date s \<or> oldest q \<le> date s)"
proof (induction "nat (b - a + 1)" arbitrary: s a b rule: less_induct)
  case less
  note pages = less.prems(1) and mono = less.prems(2) and ab = less.prems(3)
  show ?case
  proof (cases "a \<le> b")
    case False
    with ab have "a = b + 1" by simp
    then show ?thesis using False by (auto simp: bsearch_stop)
  next
    case True
    define m where "m = (a + b) div 2"
    have m: "a \<le> m" "m \<le> b" using True by (simp_all add: m_def)
    from pages m obtain raws where raws: "listing ev (length (navs s)) m = (raws, None)" "raws \<noteq> []"
      "date_of (post_publish_time (hd raws)) = newest m"
      "date_of (post_publish_time (last raws)) = oldest m" by blast
    show ?thesis
    proof (cases "newest m < date s \<or> \<not> date s < oldest m")
      case left: True
      have eq: "bsearch ev s a b = bsearch ev (probe_state s a b) a (m - 1)"
        using True raws left by (auto simp: bsearch_unfold m_def [symmetric])
      have meas: "nat (m - 1 - a + 1) < nat (b - a + 1)" using m by linarith
      have p1: "\<forall>t p. a \<le> p \<and> p \<le> m - 1 \<longrightarrow>
       (\<exists>raws. listing ev t p = (raws, None) \<and> raws \<noteq> [] \<and>
          date_of (post_publish_time (hd raws)) = newest p \<and>
          date_of (post_publish_time (last raws)) = oldest p)"
        using pages m by (meson order_trans zle_diff1_eq less_imp_le)
      have p2: "\<forall>i j. a \<le> i \<and> i \<le> j \<and> j \<le> m - 1 \<longrightarrow> newest j \<le> newest i \<and> oldest j \<le> oldest i"
        using mono m by (meson order_trans zle_diff1_eq less_imp_le)
      have p3: "a \<le> m - 1 + 1" using m by simp
      from less.hyps [OF meas p1 p2 p3, of "probe_state s a b"] obtain s' p where
        run: "bsearch ev (probe_state s a b) a (m - 1) = (s', Inr (p, p - 1))"
        and b1: "a \<le> p" "p \<le> m"
        and lo: "\<forall>q. a \<le> q \<and> q < p \<longrightarrow> date s \<le> newest q \<and> date s < oldest q"
        and hi: "\<forall>q. p \<le> q \<and> q \<le> m - 1 \<longrightarrow> newest q < date s \<or> oldest q \<le> date s"
        by auto
      have "\<forall>q. p \<le> q \<and> q \<le> b \<longrightarrow> newest q < date s \<or> oldest q \<le> date s"
      proof (intro allI impI)
        fix q assume q: "p \<le> q \<and> q \<le> b"
        show "newest q < date s \<or> oldest q \<le> date s"
        proof (cases "q \<le> m - 1")
          case True
          with hi q show ?thesis by blast
        next
          case False
          then have "m \<le> q" by simp
          with mono m q have "newest q \<le> newest m" "oldest q \<le> oldest m" by blast+
          with left show ?thesis by (meson le_less_trans not_less order_trans)
        qed
      qed
      with run b1 lo m eq show ?thesis by (intro exI [of _ s'] exI [of _ p]) simp
    next
      case right: False
      then have "\<not> newest m < date s" and r1b: "date s < oldest m" by blast+
      then have r1a: "date s \<le> newest m" by (simp add: not_less)
      note r1 = r1a r1b
      have eq: "bsearch ev s a b = bsearch ev (probe_state s a b) (m + 1) b"
        using True raws right by (auto simp: bsearch_unfold m_def [symmetric])
      have meas: "nat (b - (m + 1) + 1) < nat (b - a + 1)" using m by linarith
      have p1: "\<forall>t p. m + 1 \<le> p \<and> p \<le> b \<longrightarrow>
       (\<exists>raws. listing ev t p = (raws, None) \<and> raws \<noteq> [] \<and>
          date_of (post_publish_time (hd raws)) = newest p \<and>
          date_of (post_publish_time (last raws)) = oldest p)"
        using pages m by (meson order_trans add1_zle_eq less_imp_le)
      have p2: "\<forall>i j. m + 1 \<le> i \<and> i \<le> j \<and> j \<le> b \<longrightarrow> newest j \<le> newest i \<and> oldest j \<le> oldest i"
        using mono m by (meson order_trans add1_zle_eq less_imp_le)
      have p3: "m + 1 \<le> b + 1" using m by simp
      from less.hyps [OF meas p1 p2 p3, of "probe_state s a b"] obtain s' p where
        run: "bsearch ev (probe_state s a b) (m + 1) b = (s', Inr (p, p - 1))"
        and b1: "m + 1 \<le> p" "p \<le> b + 1"
        and lo: "\<forall>q. m + 1 \<le> q \<and> q < p \<longrightarrow> date s \<le> newest q \<and> date s < oldest q"
        and hi: "\<forall>q. p \<le> q \<and> q \<le> b \<longrightarrow> newest q < date s \<or> oldest q \<le> date s"
        by auto
      have "\<forall>q. a \<le> q \<and> q < p \<longrightarrow> date s \<le> newest q \<and> date s < oldest q"
      proof (intro allI impI)
        fix q assume q: "a \<le> q \<and> q < p"
        show "date s \<le> newest q \<and> date s < oldest q"
        proof (cases "m + 1 \<le> q")
          case True
          with lo q show ?thesis by blast
        next
          case False
          then have "q \<le> m" by simp
          with mono m q have "newest m \<le> newest q" "oldest m \<le> oldest q" by blast+
          with r1 show ?thesis by (meson less_le_trans order_trans)
        qed
      qed
      with run b1 hi m eq show ?thesis by (intro exI [of _ s'] exI [of _ p]) simp
    qed
  qed
qed

lemma boundary_is_first_containing:
  fixes d :: date and p q0 tp :: int
  assumes lo: "\<forall>q. 1 \<le> q \<and> q < p \<longrightarrow> d \<le> newest q \<and> d < oldest q"
    and hi: "\<forall>q. p \<le> q \<and> q \<le> tp \<longrightarrow> newest q < d \<or> oldest q \<le> d"
    and mono': "\<forall>i j. 1 \<le> i \<and> i \<le> j \<and> j \<le> tp \<longrightarrow> newest j \<le> newest i \<and> oldest j \<le> oldest i"
    and b: "1 \<le> p"
    and q0: "1 \<le> q0" "q0 \<le> tp" "oldest q0 \<le> d" "d \<le> newest q0"
    and least: "\<forall>q. 1 \<le> q \<and> q < q0 \<longrightarrow> \<not> (oldest q \<le> d \<and> d \<le> newest q)"
  shows "p = q0"
proof -
  have "\<not> q0 < p"
  proof
    assume "q0 < p"
    with lo [rule_format, of q0] q0(1) have "d < oldest q0" by simp
    with leD [OF q0(3)] show False by simp
  qed
  then have pq: "p \<le> q0" by simp
  with hi [rule_format, of p] q0(2) have alt: "newest p < d \<or> oldest p \<le> d" by simp
  from mono' [rule_format, of p q0] b pq q0(2) have "newest q0 \<le> newest p" by simp
  with q0(4) have np: "d \<le> newest p" by (rule order_trans)
  from alt leD [OF np] have op: "oldest p \<le> d" by simp
  have "\<not> p < q0"
  proof
    assume "p < q0"
    with least [rule_format, of p] b np op show False by simp
  qed
  with pq show "p = q0" by simp
qed

lemma boundary_is_first_older:
  fixes d :: date and p q1 tp :: int
  assumes lo: "\<forall>q. 1 \<le> q \<and> q < p \<longrightarrow> d \<le> newest q \<and> d < oldest q"
    and hi: "\<forall>q. p \<le> q \<and> q \<le> tp \<longrightarrow> newest q < d \<or> oldest q \<le> d"
    and none: "\<forall>q. 1 \<le> q \<and> q \<le> tp \<longrightarrow> \<not> (oldest q \<le> d \<and> d \<le> newest q)"
    and b: "1 \<le> p"
    and q1: "1 \<le> q1" "q1 \<le> tp" "newest q1 < d"
    and least: "\<forall>q. 1 \<le> q \<and> q < q1 \<longrightarrow> \<not> newest q < d"
  shows "p = q1"
proof -
  have "\<not> q1 < p"
  proof
    assume "q1 < p"
    with lo [rule_format, of q1] q1(1) have "d \<le> newest q1" by simp
    from leD [OF this] q1(3) show False by simp
  qed
  then have pq: "p \<le> q1" by simp
  with hi [rule_format, of p] q1(2) have alt: "newest p < d \<or> oldest p \<le> d" by simp
  from none [rule_format, of p] b pq q1(2) have nc: "\<not> (oldest p \<le> d \<and> d \<le> newest p)" by simp
  have np: "newest p < d"
  proof (rule ccontr)
    assume nn: "\<not> newest p < d"
    then have "d \<le> newest p" by (rule leI)
    moreover from alt nn have "oldest p \<le> d" by simp
    ultimately show False using nc by simp
  qed
  have "\<not> p < q1"
  proof
    assume "p < q1"
    with least [rule_format, of p] b np show False by simp
  qed
  with pq show "p = q1" by simp
qed

lemma boundary_is_sentinel:
  fixes d :: date and p tp :: int
  assumes hi: "\<forall>q. p \<le> q \<and> q \<le> tp \<longrightarrow> newest q < d \<or> oldest q \<le> d"
    and none: "\<forall>q. 1 \<le> q \<and> q \<le> tp \<longrightarrow> \<not> (oldest q \<le> d \<and> d \<le> newest q)"
    and all: "\<forall>q. 1 \<le> q \<and> q \<le> tp \<longrightarrow> \<not> newest q < d"
    and b: "1 \<le> p" "p \<le> tp + 1"
  shows "p = tp + 1"
proof -
  have "\<not> p \<le> tp"
  proof
    assume ptp: "p \<le> tp"
    with hi [rule_format, of p] have alt: "newest p < d \<or> oldest p \<le> d" by simp
    from all [rule_format, of p] b(1) ptp have nn: "\<not> newest p < d" by simp
    then have "d \<le> newest p" by (rule leI)
    moreover from alt nn have "oldest p \<le> d" by simp
    ultimately show False using none [rule_format, of p] b(1) ptp by simp
  qed
  with b(2) show ?thesis by simp
qed

text \<open>
  Claim C2. Let every page from 1 to \<open>tp\<close> (at least 1) show, whenever it is loaded, a
  non-empty listing whose first item is of the day \<open>newest p\<close> and whose last item is of
  the day \<open>oldest p\<close>, and let both be non-increasing in the page ordinal. Then the loop
  ends without an exception, and the ordinal it leaves in \<open>start\<close> is \<open>locate_spec\<close>: the
  smallest page whose range contains the target date, or, when no page contains it, the
  insertion boundary (the first page wholly older than the target, \<open>tp + 1\<close> if there is
  none); \<open>end\<close> is one less.
\<close>

theorem locate_refines_spec:
  assumes "1 \<le> tp"
    and pages: "\<forall>t p. 1 \<le> p \<and> p \<le> tp \<longrightarrow>
       (\<exists>raws. listing ev t p = (raws, None) \<and> raws \<noteq> [] \<and>
          date_of (post_publish_time (hd raws)) = newest p \<and>
          date_of (post_publish_time (last raws)) = oldest p)"
    and mono: "\<forall>i j. 1 \<le> i \<and> i < j \<and> j \<le> tp \<longrightarrow> newest j \<le> newest i \<and> oldest j \<le> oldest i"
  shows "snd (bsearch ev s 1 tp) =
           Inr (locate_spec newest oldest (date s) tp, locate_spec newest oldest (date s) tp - 1)"
proof -
  define d where "d = date s"
  have mono': "\<forall>i j. 1 \<le> i \<and> i \<le> j \<and> j \<le> tp \<longrightarrow> newest j \<le> newest i \<and> oldest j \<le> oldest i"
  proof (intro allI impI)
    fix i j assume h: "1 \<le> i \<and> i \<le> j \<and> j \<le> tp"
    show "newest j \<le> newest i \<and> oldest j \<le> oldest i"
    proof (cases "i = j")
      case True
      then show ?thesis by simp
    next
      case False
      with h have "1 \<le> i \<and> i < j \<and> j \<le> tp" by simp
      with mono [rule_format, of i j] show ?thesis by simp
    qed
  qed
  have "1 \<le> tp + 1" using assms(1) by simp
  from bsearch_least [OF pages mono' this, of s] obtain s' p where
    run: "bsearch ev s 1 tp = (s', Inr (p, p - 1))"
    and b: "1 \<le> p" "p \<le> tp + 1"
    and lo: "\<forall>q. 1 \<le> q \<and> q < p \<longrightarrow> d \<le> newest q \<and> d < oldest q"
    and hi: "\<forall>q. p \<le> q \<and> q \<le> tp \<longrightarrow> newest q < d \<or> oldest q \<le> d"
    unfolding d_def by (elim exE conjE)
  have "locate_spec newest oldest d tp = p"
  proof (cases "find (\<lambda>p. oldest p \<le> d \<and> d \<le> newest p) [1..tp]")
    case (Some q0)
    have c: "1 \<le> q0 \<and> q0 \<le> tp \<and> (oldest q0 \<le> d \<and> d \<le> newest q0) \<and>
        (\<forall>q. 1 \<le> q \<and> q < q0 \<longrightarrow> \<not> (oldest q \<le> d \<and> d \<le> newest q))"
      by (rule find_upto_Some [THEN iffD1, OF Some])
    have "p = q0"
      by (rule boundary_is_first_containing [OF lo hi mono' b(1)]) (simp_all add: c)
    with Some show ?thesis by (simp only: locate_spec_def option.case)
  next
    case None
    have none: "\<forall>q. 1 \<le> q \<and> q \<le> tp \<longrightarrow> \<not> (oldest q \<le> d \<and> d \<le> newest q)"
      by (rule find_upto_None [THEN iffD1, OF None])
    show ?thesis
    proof (cases "find (\<lambda>p. newest p < d) [1..tp]")
      case inner: None
      have all: "\<forall>q. 1 \<le> q \<and> q \<le> tp \<longrightarrow> \<not> newest q < d"
        by (rule find_upto_None [THEN iffD1, OF inner])
      have "p = tp + 1" by (rule boundary_is_sentinel [OF hi none all b])
      with None inner show ?thesis by (simp only: locate_spec_def option.case)
    next
      case (Some q1)
      have c: "1 \<le> q1 \<and> q1 \<le> tp \<and> newest q1 < d \<and>
          (\<forall>q. 1 \<le> q \<and> q < q1 \<longrightarrow> \<not> newest q < d)"
        by (rule find_upto_Some [THEN iffD1, OF Some])
      have "p = q1"
        by (rule boundary_is_first_older [OF lo hi none b(1)]) (simp_all add: c)
      with None Some show ?thesis by (simp only: locate_spec_def option.case)
    qed
  qed
  with run show ?thesis by (simp add: d_def)
qed

lemma demo_pages_ranges:
  "\<forall>t p. 1 \<le> p \<and> p \<le> 3 \<longrightarrow>
       (\<exists>raws. listing demo_env t p = (raws, None) \<and> raws \<noteq> [] \<and>
          date_of (post_publish_time (hd raws)) = demo_newest p \<and>
          date_of (post_publish_time (last raws)) = demo_oldest p)"
proof (intro allI impI)
  fix t :: nat and p :: int
  assume "1 \<le> p \<and> p \<le> 3"
  then have "p = 1 \<or> p = 2 \<or> p = 3" by auto
  then show "\<exists>raws. listing demo_env t p = (raws, None) \<and> raws \<noteq> [] \<and>
          date_of (post_publish_time (hd raws)) = demo_newest p \<and>
          date_of (post_publish_time (last raws)) = demo_oldest p"
    by (auto simp: demo_env_def demo_pages_def raw_on_def date_of_def demo_newest_def
          demo_oldest_def)
qed

lemma demo_pages_mono:
  "\<forall>i j. 1 \<le> i \<and> i < j \<and> j \<le> 3 \<longrightarrow>
     demo_newest j \<le> demo_newest i \<and> demo_oldest j \<le> demo_oldest i"
  by (auto simp: demo_newest_def demo_oldest_def)

theorem locate_refines_spec_witness:
  "(1::int) \<le> 3 \<and>
   snd (bsearch demo_env (demo_fetcher\<lparr>total_page := 3\<rparr>) 1 3) = Inr (2, 1) \<and>
   locate_spec demo_newest demo_oldest (2024, 1, 10) 3 = 2 \<and>
   demo_oldest 2 \<le> (2024, 1, 10) \<and> (2024, 1, 10) \<le> demo_newest 2 \<and>
   \<not> (demo_oldest 1 \<le> (2024, 1, 10))"
proof -
  have one: "(1::int) \<le> 3" by simp
  have d: "date (demo_fetcher\<lparr>total_page := 3\<rparr>) = (2024, 1, 10)"
    by (simp add: demo_fetcher_def Fetcher_init_def)
  have up: "[1..3::int] = [1, 2, 3]" by (simp add: upto.simps)
  from locate_refines_spec [OF one demo_pages_ranges demo_pages_mono, of "demo_fetcher\<lparr>total_page := 3\<rparr>"]
  show ?thesis unfolding demo_search d
    by (simp add: locate_spec_def up demo_newest_def demo_oldest_def)
qed

section \<open>An empty page\<close>

lemma get_total_page_submitted: "submitted (fst (get_total_page ev s)) = submitted s"
  by (simp add: get_total_page_def Let_def split: first_page.splits option.splits)

lemma bsearch_empty_page:
  "bsearch ev s a b = (s', r) \<Longrightarrow> length (navs s) \<le> k \<Longrightarrow> k < length (navs s') \<Longrightarrow>
   listing ev k (navs s' ! k) = ([], None) \<Longrightarrow> r = Inl IndexError"
proof (induction "nat (b - a + 1)" arbitrary: s a b rule: less_induct)
  case less
  from less.prems(1) show ?case
  proof (cases rule: bsearch_cases)
    case stop
    with less.prems(2,3) show ?thesis by simp
  next
    case (fail e)
    with less.prems(2,3) have "k = length (navs s)" by simp
    with fail less.prems(4) show ?thesis by auto
  next
    case (left raws)
    from bsearch_trace [OF left(5)] obtain tr where
      tr: "navs s' = navs (probe_state s a b) @ map mid_of tr" by blast
    show ?thesis
    proof (cases "k = length (navs s)")
      case True
      with tr have "navs s' ! k = (a + b) div 2" by (simp add: nth_append)
      with less.prems(4) True left(2,3) show ?thesis by simp
    next
      case False
      with less.prems(2) have k: "length (navs (probe_state s a b)) \<le> k" by simp
      have "nat ((a + b) div 2 - 1 - a + 1) < nat (b - a + 1)" using left(1) by linarith
      from less.hyps [OF this left(5) k less.prems(3,4)] show ?thesis .
    qed
  next
    case (right raws)
    from bsearch_trace [OF right(6)] obtain tr where
      tr: "navs s' = navs (probe_state s a b) @ map mid_of tr" by blast
    show ?thesis
    proof (cases "k = length (navs s)")
      case True
      with tr have "navs s' ! k = (a + b) div 2" by (simp add: nth_append)
      with less.prems(4) True right(2,3) show ?thesis by simp
    next
      case False
      with less.prems(2) have k: "length (navs (probe_state s a b)) \<le> k" by simp
      have "nat (b - ((a + b) div 2 + 1) + 1) < nat (b - a + 1)" using right(1) by linarith
      from less.hyps [OF this right(6) k less.prems(3,4)] show ?thesis .
    qed
  qed
qed

text \<open>
  Claim C7. \<^verbatim>\<open>get_date_range\<close> of an empty list raises (Python's \<^verbatim>\<open>IndexError\<close>, the
  error of \<^verbatim>\<open>articles[0]\<close>). When the page count is found and any probe of the search,
  the \<open>k\<close>-th navigation of the session, gets an empty page, the run ends with that
  exception, has yielded nothing and has handed no article to the worker pool.
\<close>

theorem empty_page_aborts_run:
  assumes "get_total_page ev s = (s1, None)"
    and "bsearch ev s1 1 (total_page s1) = (s2, r)"
    and "length (navs s1) \<le> k" and "k < length (navs s2)"
    and "listing ev k (navs s2 ! k) = ([], None)"
  shows "get_date_range [] = Inl IndexError \<and>
         get_articles_with_date ev s = (s2, [], Some IndexError) \<and>
         submitted s2 = submitted s"
proof -
  from bsearch_empty_page [OF assms(2,3,4,5)] have r: "r = Inl IndexError" .
  from bsearch_frame [OF assms(2)] get_total_page_submitted [of ev s] assms(1)
  have "submitted s2 = submitted s" by simp
  with r assms(1,2) show ?thesis
    by (simp add: get_articles_with_date_def get_date_range_def)
qed

theorem empty_page_aborts_run_witness:
  "get_total_page hollow_env demo_fetcher = (demo_fetcher\<lparr>total_page := 3, navs := [1]\<rparr>, None) \<and>
   bsearch hollow_env (demo_fetcher\<lparr>total_page := 3, navs := [1]\<rparr>) 1 3 =
     (demo_fetcher\<lparr>total_page := 3, navs := [1, 2], searching := [(1, 3)]\<rparr>, Inl IndexError) \<and>
   listing hollow_env 1 ([1, 2] ! 1) = ([], None) \<and>
   get_articles_with_date hollow_env demo_fetcher =
     (demo_fetcher\<lparr>total_page := 3, navs := [1, 2], searching := [(1, 3)]\<rparr>, [], Some IndexError)"
proof -
  have a: "get_total_page hollow_env demo_fetcher =
      (demo_fetcher\<lparr>total_page := 3, navs := [1]\<rparr>, None)"
    by (simp add: get_total_page_def hollow_env_def demo_defs)
  have b: "bsearch hollow_env (demo_fetcher\<lparr>total_page := 3, navs := [1]\<rparr>) 1
             (total_page (demo_fetcher\<lparr>total_page := 3, navs := [1]\<rparr>)) =
     (demo_fetcher\<lparr>total_page := 3, navs := [1, 2], searching := [(1, 3)]\<rparr>, Inl IndexError)"
    by (simp add: bsearch.simps get_article_list_def get_date_range_def hollow_env_def Let_def demo_defs)
  have c: "length (navs (demo_fetcher\<lparr>total_page := 3, navs := [1]\<rparr>)) \<le> 1" by simp
  have d: "1 < length (navs (demo_fetcher\<lparr>total_page := 3, navs := [1, 2], searching := [(1, 3)]\<rparr>))"
    by simp
  have e: "listing hollow_env 1
      (navs (demo_fetcher\<lparr>total_page := 3, navs := [1, 2], searching := [(1, 3)]\<rparr>) ! 1) = ([], None)"
    by (simp add: hollow_env_def demo_defs)
  from empty_page_aborts_run [OF a b c d e] a b e show ?thesis by simp
qed

end
